theory Spec2Isabelle
  imports Main "HOL-Library.Word"
begin

section \<open>The Actions scheduler (Actions.h, Actions.cpp)\<close>

text \<open>
  A shallow embedding of the Arduino library \<^verbatim>\<open>Actions\<close>: a fixed-size ring buffer of
  delayed callbacks, filled by \<^verbatim>\<open>runLater\<close> and emptied by \<^verbatim>\<open>loop\<close>.

  \<^item> \<^verbatim>\<open>unsigned long\<close> (the type of \<^verbatim>\<open>millis()\<close>, \<^verbatim>\<open>micros()\<close>, \<^verbatim>\<open>created\<close> and
    \<^verbatim>\<open>delay\<close>) is 32 bits wide on Arduino cores: \<open>32 word\<close>, whose \<open>-\<close> wraps.
  \<^item> \<^verbatim>\<open>int\<close> (\<^verbatim>\<open>queueSize\<close>, \<^verbatim>\<open>head\<close>, \<^verbatim>\<open>tail\<close>) is \<open>int\<close>. The only
    \<^verbatim>\<open>int\<close> arithmetic of the library that can leave the machine range is
    \<^verbatim>\<open>size += 1\<close> in the constructor at \<^verbatim>\<open>INT_MAX\<close>, which is undefined in C++ and is
    not modelled; every other sum or difference is bounded by \<^verbatim>\<open>queueSize\<close>.
  \<^item> An operation the source cannot complete returns an \<open>error\<close>: the array allocation
    of the constructor with a negative count, and an assignment through \<^verbatim>\<open>NULL\<close>.
  \<^item> A function pointer, an instance pointer and a member-function pointer are natural
    numbers (their addresses); \<^verbatim>\<open>NULL\<close> is \<open>None\<close>.
  \<^item> What a user function does when it is called is a parameter \<open>exec\<close>: the effect of
    running the function on the scheduler it is called from.
  \<^item> Every execution of \<^verbatim>\<open>Callback::call()\<close> is recorded in a log that the
    operations return next to the new state.
\<close>

subsection \<open>Callback and Action\<close>

type_synonym FunctionCallback = nat
type_synonym MethodInstance = nat
type_synonym MethodCallback = nat
type_synonym ulong = "32 word"

record Callback =
  functionCallback :: "FunctionCallback option"
  methodInstance :: "MethodInstance option"
  methodCallback :: "MethodCallback option"

text \<open>The three constructors of \<^verbatim>\<open>Callback\<close> (Actions.h, lines 79 to 85).\<close>

definition Callback_function :: "FunctionCallback option \<Rightarrow> Callback" where
  "Callback_function f =
     \<lparr>functionCallback = f, methodInstance = None, methodCallback = None\<rparr>"

definition Callback_method :: "MethodInstance option \<Rightarrow> MethodCallback option \<Rightarrow> Callback" where
  "Callback_method inst meth =
     \<lparr>functionCallback = None, methodInstance = inst, methodCallback = meth\<rparr>"

definition Callback_empty :: Callback where
  "Callback_empty =
     \<lparr>functionCallback = None, methodInstance = None, methodCallback = None\<rparr>"

record Action =
  callback :: Callback
  useMicros :: bool
  created :: ulong
  delay :: ulong

text \<open>One reading of the two Arduino clocks, \<^verbatim>\<open>millis()\<close> and \<^verbatim>\<open>micros()\<close>.\<close>

record clock =
  millis :: ulong
  micros :: ulong

text \<open>
  \<^verbatim>\<open>Action::Action(Callback, unsigned long, bool)\<close>: \<^verbatim>\<open>created\<close> is read from the clock
  that \<^verbatim>\<open>useMicros\<close> selects.
\<close>

definition Action_ctor :: "clock \<Rightarrow> Callback \<Rightarrow> ulong \<Rightarrow> bool \<Rightarrow> Action" where
  "Action_ctor clk cb d um =
     \<lparr>callback = cb, useMicros = um,
      created = (if \<not> um then millis clk else micros clk), delay = d\<rparr>"

text \<open>
  \<^verbatim>\<open>Action::Action()\<close> sets only \<^verbatim>\<open>callback\<close>; the other three fields are left
  uninitialised by the source. They are given fixed values here; the library never reads
  them, since it reads a slot only after \<^verbatim>\<open>runLater\<close> has written it.
\<close>

definition Action_empty :: Action where
  "Action_empty = \<lparr>callback = Callback_empty, useMicros = False, created = 0, delay = 0\<rparr>"

subsection \<open>The scheduler\<close>

text \<open>
  \<^verbatim>\<open>queue\<close> is the array allocated by the constructor; \<^verbatim>\<open>overflowCallback\<close> is a pointer
  to a \<^verbatim>\<open>Callback\<close>: \<open>None\<close> is \<^verbatim>\<open>NULL\<close>, \<open>Some cb\<close> points to an object holding \<open>cb\<close>.
\<close>

record Actions =
  queue :: "Action list"
  queueSize :: int
  head :: int
  tail :: int
  overflowCallback :: "Callback option"

datatype target = Function FunctionCallback | Method MethodInstance MethodCallback

type_synonym behaviour = "target \<Rightarrow> Actions \<Rightarrow> Actions"

datatype error = NullPointerWrite | BadArrayNewLength

text \<open>
  The constructor. The source's first statement, \<^verbatim>\<open>if(size < 0) queueSize = 0;\<close>, is
  overwritten by \<^verbatim>\<open>queueSize = size;\<close> three lines later and changes neither
  \<^verbatim>\<open>size\<close> nor the object. After \<^verbatim>\<open>size += 1\<close> the source executes
  \<^verbatim>\<open>new Action[size]\<close>: for a negative \<^verbatim>\<open>size\<close> the allocation fails
  (\<^verbatim>\<open>std::bad_array_new_length\<close>) and no scheduler exists; otherwise it
  default-constructs \<^verbatim>\<open>size\<close> slots and the remaining statements set the fields.
\<close>

definition Actions_ctor :: "int \<Rightarrow> error + Actions" where
  "Actions_ctor size0 =
     (let size1 = size0 + 1
      in if size1 < 0 then Inl BadArrayNewLength
         else Inr \<lparr>queue = replicate (nat size1) Action_empty,
                   queueSize = size1, head = 0, tail = 0, overflowCallback = None\<rparr>)"

text \<open>\<^verbatim>\<open>Callback::call()\<close>: the effect of the call on the scheduler.\<close>

definition call :: "behaviour \<Rightarrow> Callback \<Rightarrow> Actions \<Rightarrow> Actions" where
  "call exec cb s =
     (if functionCallback cb \<noteq> None
      then exec (Function (the (functionCallback cb))) s
      else if methodInstance cb \<noteq> None \<and> methodCallback cb \<noteq> None
      then exec (Method (the (methodInstance cb)) (the (methodCallback cb))) s
      else s)"

definition getSize :: "Actions \<Rightarrow> int" where
  "getSize s =
     (if head s > tail s then head s - tail s
      else if \<not> (tail s = head s) then queueSize s - (tail s - head s)
      else 0)"

definition isFull :: "Actions \<Rightarrow> bool" where
  "isFull s =
     (if queueSize s \<le> 1 then True
      else if head s = queueSize s - 1 then tail s = 0
      else tail s = head s + 1)"

definition nextSlot :: "Actions \<Rightarrow> int \<Rightarrow> int" where
  "nextSlot s currentSlot =
     (if currentSlot = queueSize s - 1 then 0 else currentSlot + 1)"

text \<open>
  \<^verbatim>\<open>bool Actions::runLater(Action action)\<close>. The result is the returned flag, the log
  of callbacks called, and the new state.
\<close>

definition runLater :: "behaviour \<Rightarrow> Action \<Rightarrow> Actions \<Rightarrow> bool \<times> Callback list \<times> Actions" where
  "runLater exec action s =
     (if \<not> isFull s
      then (True, [],
            s\<lparr>queue := (queue s)[nat (head s) := action], head := nextSlot s (head s)\<rparr>)
      else (case overflowCallback s of
              Some cb \<Rightarrow> (False, [cb], call exec cb s)
            | None \<Rightarrow> (False, [], s)))"

text \<open>The two public overloads build the \<^verbatim>\<open>Action\<close> and pass it on.\<close>

definition runLater_function ::
  "behaviour \<Rightarrow> clock \<Rightarrow> FunctionCallback option \<Rightarrow> ulong \<Rightarrow> bool \<Rightarrow> Actions
     \<Rightarrow> bool \<times> Callback list \<times> Actions" where
  "runLater_function exec clk f d um s =
     runLater exec (Action_ctor clk (Callback_function f) d um) s"

definition runLater_method ::
  "behaviour \<Rightarrow> clock \<Rightarrow> MethodInstance option \<Rightarrow> MethodCallback option \<Rightarrow> ulong \<Rightarrow> bool
     \<Rightarrow> Actions \<Rightarrow> bool \<times> Callback list \<times> Actions" where
  "runLater_method exec clk inst meth d um s =
     runLater exec (Action_ctor clk (Callback_method inst meth) d um) s"

text \<open>
  \<^verbatim>\<open>bool Actions::remove(Action& action)\<close>: the flag, the contents of \<^verbatim>\<open>action\<close>
  after the call, and the new state.
\<close>

definition remove :: "Action \<Rightarrow> Actions \<Rightarrow> bool \<times> Action \<times> Actions" where
  "remove action s =
     (if \<not> (tail s = head s)
      then (True, queue s ! nat (tail s), s\<lparr>tail := nextSlot s (tail s)\<rparr>)
      else (False, action, s))"

text \<open>
  The test of \<^verbatim>\<open>loop\<close>, lines 96 and 97:
  \<^verbatim>\<open>now = action.useMicros ? micros() : millis(); now - action.created > action.delay\<close>.
\<close>

definition is_due :: "clock \<Rightarrow> Action \<Rightarrow> bool" where
  "is_due clk action =
     (let now = (if useMicros action then micros clk else millis clk)
      in now - created action > delay action)"

text \<open>
  The \<^verbatim>\<open>for\<close> loop of \<^verbatim>\<open>Actions::loop\<close> from counter \<open>i\<close> on. \<open>clk i\<close> is what the
  clocks show in iteration \<open>i\<close>; \<open>action\<close> is the local variable; \<open>calls\<close> is the log so
  far. \<^verbatim>\<open>getSize()\<close> is evaluated again before every iteration, as in the source, and
  \<^verbatim>\<open>break\<close> ends the recursion. The result is \<open>None\<close> if the loop does not end.
\<close>

partial_function (option) loop_from ::
  "behaviour \<Rightarrow> (nat \<Rightarrow> clock) \<Rightarrow> nat \<Rightarrow> Action \<Rightarrow> Callback list \<Rightarrow> Actions
     \<Rightarrow> (Callback list \<times> Actions) option" where
  "loop_from exec clk i action calls s =
     (if int i < getSize s
      then (case remove action s of
              (removed, action1, s1) \<Rightarrow>
                if is_due (clk i) action1
                then Some (calls @ [callback action1], call exec (callback action1) s1)
                else (case runLater exec action1 s1 of
                        (stored, calls2, s2) \<Rightarrow>
                          loop_from exec clk (Suc i) action1 (calls @ calls2) s2))
      else Some (calls, s))"

declare loop_from.simps [code]

text \<open>
  \<^verbatim>\<open>void Actions::loop()\<close>. The function returns nothing: the first component of the
  result is the unit value, the second the log of callbacks called and the final state.
\<close>

definition loop :: "behaviour \<Rightarrow> (nat \<Rightarrow> clock) \<Rightarrow> Actions \<Rightarrow> (unit \<times> Callback list \<times> Actions) option" where
  "loop exec clk s = map_option (\<lambda>r. ((), r)) (loop_from exec clk 0 Action_empty [] s)"

text \<open>
  \<^verbatim>\<open>setOverflowCallback\<close> assigns through the pointer, \<^verbatim>\<open>*overflowCallback = ...\<close>;
  it never changes the pointer itself. Through \<^verbatim>\<open>NULL\<close> the assignment is undefined:
  the model returns an error.
\<close>

definition setOverflowCallback_function :: "FunctionCallback option \<Rightarrow> Actions \<Rightarrow> error + Actions" where
  "setOverflowCallback_function f s =
     (case overflowCallback s of
        None \<Rightarrow> Inl NullPointerWrite
      | Some old \<Rightarrow> Inr (s\<lparr>overflowCallback := Some (Callback_function f)\<rparr>))"

definition setOverflowCallback_method ::
  "MethodInstance option \<Rightarrow> MethodCallback option \<Rightarrow> Actions \<Rightarrow> error + Actions" where
  "setOverflowCallback_method inst meth s =
     (case overflowCallback s of
        None \<Rightarrow> Inl NullPointerWrite
      | Some old \<Rightarrow> Inr (s\<lparr>overflowCallback := Some (Callback_method inst meth)\<rparr>))"

subsection \<open>The invariant and the pending tasks\<close>

text \<open>
  The indices are within the array, or the scheduler is in its start state (for the
  constructor argument -1 the array has no slot and the indices stay 0).
\<close>

definition wellformed :: "Actions \<Rightarrow> bool" where
  "wellformed s \<longleftrightarrow>
     length (queue s) = nat (queueSize s) \<and>
     ((head s = 0 \<and> tail s = 0) \<or>
      (0 \<le> head s \<and> head s < queueSize s \<and> 0 \<le> tail s \<and> tail s < queueSize s))"

text \<open>
  The tasks waiting in the ring, oldest first: the slots from \<^verbatim>\<open>tail\<close> up to, not
  including, \<^verbatim>\<open>head\<close>, around the end of the array.
\<close>

definition pending :: "Actions \<Rightarrow> Action list" where
  "pending s =
     (if tail s \<le> head s
      then drop (nat (tail s)) (take (nat (head s)) (queue s))
      else drop (nat (tail s)) (queue s) @ take (nat (head s)) (queue s))"

text \<open>
  The bounds on the indices for a scheduler built with constructor argument \<open>n\<close>: both
  lie in the \<open>n + 1\<close> allocated slots.
\<close>

definition bounds :: "int \<Rightarrow> Actions \<Rightarrow> bool" where
  "bounds n s \<longleftrightarrow>
     length (queue s) = nat (n + 1) \<and> queueSize s = n + 1 \<and>
     0 \<le> head s \<and> head s < n + 1 \<and> 0 \<le> tail s \<and> tail s < n + 1"

subsection \<open>Drivers\<close>

text \<open>
  A sketch calls \<^verbatim>\<open>loop()\<close> again and again: \<open>polls exec clks s\<close> makes one call for
  every element of \<open>clks\<close> (the clock readings of that call) and collects the log.
\<close>

fun polls :: "behaviour \<Rightarrow> (nat \<Rightarrow> clock) list \<Rightarrow> Actions \<Rightarrow> (Callback list \<times> Actions) option" where
  "polls exec [] s = Some ([], s)"
| "polls exec (clk # clks) s =
     (case loop exec clk s of
        None \<Rightarrow> None
      | Some (u, calls, s1) \<Rightarrow>
          (case polls exec clks s1 of
             None \<Rightarrow> None
           | Some (calls', s2) \<Rightarrow> Some (calls @ calls', s2)))"

text \<open>Consecutive calls of \<^verbatim>\<open>runLater\<close>, one for every action, with the flags returned.\<close>

fun runLater_each :: "behaviour \<Rightarrow> Action list \<Rightarrow> Actions \<Rightarrow> bool list \<times> Actions" where
  "runLater_each exec [] s = ([], s)"
| "runLater_each exec (a # as) s =
     (case runLater exec a s of
        (stored, calls, s1) \<Rightarrow>
          (case runLater_each exec as s1 of (flags, s2) \<Rightarrow> (stored # flags, s2)))"

text \<open>A user function that leaves the scheduler alone, and a clock showing \<open>t\<close>.\<close>

definition idle :: behaviour where
  "idle t s = s"

definition at_time :: "ulong \<Rightarrow> clock" where
  "at_time t = \<lparr>millis = t, micros = t\<rparr>"

text \<open>
  A user function or method that, like the functions of the Blink example, registers
  itself again when it runs: with delay 500, the clocks showing 501.
\<close>

definition reschedule :: behaviour where
  "reschedule t s =
     (case t of
        Function f \<Rightarrow>
          snd (snd (runLater_function idle (at_time 501) (Some f) 500 False s))
      | Method inst meth \<Rightarrow>
          snd (snd (runLater_method idle (at_time 501) (Some inst) (Some meth) 500 False s)))"

text \<open>
  The scheduler that \<^verbatim>\<open>Actions(3)\<close> constructs (\<open>projr\<close> takes it out of the
  constructor's result), on which the functions 1, 2 and 3 are registered in this order,
  at the times 0, 1 and 2, with the delays 1000, 0 and 500 milliseconds.
\<close>

definition three_tasks :: Actions where
  "three_tasks =
     snd (snd (runLater_function idle (at_time 2) (Some 3) 500 False
       (snd (snd (runLater_function idle (at_time 1) (Some 2) 0 False
         (snd (snd (runLater_function idle (at_time 0) (Some 1) 1000 False
           (projr (Actions_ctor 3))))))))))"

section \<open>The ring buffer as a list\<close>

text \<open>
  On a well-formed scheduler \<^verbatim>\<open>getSize\<close> counts the pending tasks, \<^verbatim>\<open>isFull\<close> holds
  exactly when all slots but one are taken, \<^verbatim>\<open>runLater\<close> appends and \<^verbatim>\<open>remove\<close> takes
  the first.
\<close>

lemma getSize_pending: "wellformed s \<Longrightarrow> getSize s = int (length (pending s))"
  by (auto simp: wellformed_def getSize_def pending_def)

lemma isFull_pending:
  "wellformed s \<Longrightarrow> isFull s \<longleftrightarrow> queueSize s - 1 \<le> int (length (pending s))"
  by (auto simp: wellformed_def isFull_def pending_def)

lemma pending_bound:
  "wellformed s \<Longrightarrow> int (length (pending s)) \<le> max 0 (queueSize s - 1)"
  by (auto simp: wellformed_def pending_def)

lemma notFull_range:
  assumes "wellformed s" "\<not> isFull s"
  shows "0 \<le> head s \<and> head s < queueSize s \<and> 0 \<le> tail s \<and> tail s < queueSize s \<and> 2 \<le> queueSize s"
  using assms by (auto simp: wellformed_def isFull_def split: if_splits)

lemma runLater_stores:
  assumes wf: "wellformed s" and nf: "\<not> isFull s"
  shows "\<exists>s'. runLater exec a s = (True, [], s') \<and> wellformed s' \<and>
           pending s' = pending s @ [a] \<and> queueSize s' = queueSize s \<and>
           overflowCallback s' = overflowCallback s"
proof -
  define h t q where "h = nat (head s)" and "t = nat (tail s)" and "q = queue s"
  from notFull_range [OF wf nf] wf
  have r: "head s = int h" "tail s = int t" "queueSize s = int (length q)" "h < length q" "t < length q"
    by (auto simp: h_def t_def q_def wellformed_def)
  let ?s' = "s\<lparr>queue := q[h := a], head := nextSlot s (head s)\<rparr>"
  have 1: "runLater exec a s = (True, [], ?s')"
    using nf by (simp add: runLater_def h_def q_def)
  have 2: "wellformed ?s'"
    using r by (auto simp: wellformed_def nextSlot_def)
  have tk: "take (Suc h) (q[h := a]) = take h q @ [a]"
    using r by (simp add: take_Suc_conv_app_nth)
  have 3: "pending ?s' = pending s @ [a]"
  proof (cases "t \<le> h")
    case True
    show ?thesis
    proof (cases "Suc h = length q")
      case True
      with \<open>t \<le> h\<close> nf r have "t \<noteq> 0" by (auto simp: isFull_def split: if_splits)
      have "q[h := a] = take h q @ [a]"
        using tk True by (metis length_list_update order_refl take_all)
      with True \<open>t \<le> h\<close> \<open>t \<noteq> 0\<close> r show ?thesis
        by (auto simp: pending_def nextSlot_def q_def[symmetric])
    next
      case False
      with True r tk show ?thesis
        by (auto simp: pending_def nextSlot_def q_def[symmetric] nat_add_distrib)
    qed
  next
    case False
    with nf r have "Suc h < t" by (auto simp: isFull_def split: if_splits)
    with r tk show ?thesis
      by (auto simp: pending_def nextSlot_def q_def[symmetric] nat_add_distrib)
  qed
  show ?thesis using 1 2 3 by auto
qed

lemma remove_takes:
  assumes wf: "wellformed s" and p: "pending s = x # xs"
  shows "\<exists>s'. remove a s = (True, x, s') \<and> wellformed s' \<and>
           pending s' = xs \<and> queueSize s' = queueSize s \<and>
           overflowCallback s' = overflowCallback s"
proof -
  define h t q where "h = nat (head s)" and "t = nat (tail s)" and "q = queue s"
  from p have ne: "tail s \<noteq> head s" by (auto simp: pending_def)
  with wf have r: "head s = int h" "tail s = int t" "queueSize s = int (length q)" "h < length q" "t < length q" "t \<noteq> h"
    by (auto simp: h_def t_def q_def wellformed_def)
  let ?s' = "s\<lparr>tail := nextSlot s (tail s)\<rparr>"
  have 1: "remove a s = (True, q ! t, ?s')"
    using ne by (simp add: remove_def t_def q_def)
  have 2: "wellformed ?s'"
    using r wf by (auto simp: wellformed_def nextSlot_def)
  have 3: "q ! t = x \<and> pending ?s' = xs"
  proof (cases "t \<le> h")
    case True
    with r have "t < h" by simp
    then have "drop t (take h q) = q ! t # drop (Suc t) (take h q)"
      using r Cons_nth_drop_Suc [of t "take h q"] by simp
    with p True r \<open>t < h\<close> show ?thesis
      by (auto simp: pending_def nextSlot_def q_def[symmetric] nat_add_distrib)
  next
    case False
    have d: "drop t q = q ! t # drop (Suc t) q"
      using r by (simp add: Cons_nth_drop_Suc)
    with p False r show ?thesis
      by (auto simp: pending_def nextSlot_def q_def[symmetric] nat_add_distrib)
  qed
  show ?thesis using 1 2 3 by auto
qed

lemma reinsert_after_remove:
  assumes wf: "wellformed s" and p: "pending s = x # xs"
  shows "\<exists>s1 s2. remove a s = (True, x, s1) \<and> runLater exec x s1 = (True, [], s2) \<and>
           wellformed s1 \<and> pending s1 = xs \<and> queueSize s1 = queueSize s \<and>
           overflowCallback s1 = overflowCallback s \<and>
           wellformed s2 \<and> pending s2 = xs @ [x] \<and> queueSize s2 = queueSize s \<and>
           overflowCallback s2 = overflowCallback s"
proof -
  from remove_takes [OF wf p, of a] obtain s1 where
    s1: "remove a s = (True, x, s1)" "wellformed s1" "pending s1 = xs"
        "queueSize s1 = queueSize s" "overflowCallback s1 = overflowCallback s"
    by blast
  from pending_bound [OF wf] p have "int (length xs) + 1 \<le> max 0 (queueSize s - 1)" by simp
  then have "\<not> isFull s1"
    using s1 by (simp add: isFull_pending)
  from runLater_stores [OF s1(2) this, of exec x] s1 show ?thesis by auto
qed

lemma loop_from_idle:
  "wellformed s \<Longrightarrow> i + m = length (pending s) \<Longrightarrow>
   (\<forall>k<m. \<not> is_due (clk (i + k)) (pending s ! k)) \<Longrightarrow>
   \<exists>s'. loop_from exec clk i a calls s = Some (calls, s') \<and> wellformed s' \<and>
        pending s' = rotate m (pending s) \<and> queueSize s' = queueSize s \<and>
        overflowCallback s' = overflowCallback s"
proof (induction m arbitrary: i a s)
  case 0
  then have "\<not> int i < getSize s" by (simp add: getSize_pending)
  then have "loop_from exec clk i a calls s = Some (calls, s)"
    by (subst loop_from.simps) simp
  with 0 show ?case by simp
next
  case (Suc m)
  then obtain x xs where p: "pending s = x # xs"
    by (cases "pending s") auto
  from reinsert_after_remove [OF Suc.prems(1) p, of a exec] obtain s1 s2 where
    st: "remove a s = (True, x, s1)" "runLater exec x s1 = (True, [], s2)"
        "wellformed s2" "pending s2 = xs @ [x]" "queueSize s2 = queueSize s"
        "overflowCallback s2 = overflowCallback s"
    by blast
  from Suc.prems p have lt: "int i < getSize s" and len: "Suc i + m = length (pending s2)"
    by (simp_all add: getSize_pending st)
  from Suc.prems(3) p have nd: "\<not> is_due (clk i) x" by force
  have rest: "\<forall>k<m. \<not> is_due (clk (Suc i + k)) (pending s2 ! k)"
  proof (intro allI impI)
    fix k assume "k < m"
    with Suc.prems(2) p have "k < length xs" by simp
    then have "pending s2 ! k = pending s ! Suc k" by (simp add: st p nth_append)
    moreover from Suc.prems(3) \<open>k < m\<close> have "\<not> is_due (clk (i + Suc k)) (pending s ! Suc k)"
      by (meson Suc_less_eq)
    ultimately show "\<not> is_due (clk (Suc i + k)) (pending s2 ! k)" by simp
  qed
  from Suc.IH [OF st(3) len rest, of x] obtain s' where
    r: "loop_from exec clk (Suc i) x calls s2 = Some (calls, s')" "wellformed s'"
       "pending s' = rotate m (pending s2)" "queueSize s' = queueSize s2"
       "overflowCallback s' = overflowCallback s2"
    by blast
  have "loop_from exec clk i a calls s = Some (calls, s')"
    by (subst loop_from.simps) (simp add: lt st nd r)
  moreover have "rotate m (pending s2) = rotate (Suc m) (pending s)"
    by (simp add: st p rotate1_rotate_swap)
  ultimately show ?case using r st by simp
qed

lemma loop_from_dispatch:
  "wellformed s \<Longrightarrow> i + k < length (pending s) \<Longrightarrow>
   is_due (clk (i + k)) (pending s ! k) \<Longrightarrow>
   (\<forall>j<k. \<not> is_due (clk (i + j)) (pending s ! j)) \<Longrightarrow>
   \<exists>s1. loop_from exec clk i a calls s =
           Some (calls @ [callback (pending s ! k)], call exec (callback (pending s ! k)) s1) \<and>
        wellformed s1 \<and>
        pending s1 = drop (Suc k) (pending s) @ take k (pending s) \<and>
        queueSize s1 = queueSize s \<and> overflowCallback s1 = overflowCallback s"
proof (induction k arbitrary: i a s)
  case 0
  then obtain x xs where p: "pending s = x # xs"
    by (cases "pending s") auto
  from remove_takes [OF 0(1) p, of a] obtain s1 where
    s1: "remove a s = (True, x, s1)" "wellformed s1" "pending s1 = xs"
        "queueSize s1 = queueSize s" "overflowCallback s1 = overflowCallback s"
    by blast
  from 0 p have lt: "int i < getSize s" and d: "is_due (clk i) x"
    by (simp_all add: getSize_pending)
  have "loop_from exec clk i a calls s = Some (calls @ [callback x], call exec (callback x) s1)"
    by (subst loop_from.simps) (simp add: lt s1 d)
  with s1 p show ?case by (intro exI [of _ s1]) simp
next
  case (Suc k)
  then obtain x xs where p: "pending s = x # xs"
    by (cases "pending s") auto
  from reinsert_after_remove [OF Suc.prems(1) p, of a exec] obtain s1 s2 where
    st: "remove a s = (True, x, s1)" "runLater exec x s1 = (True, [], s2)"
        "wellformed s2" "pending s2 = xs @ [x]" "queueSize s2 = queueSize s"
        "overflowCallback s2 = overflowCallback s"
    by blast
  from Suc.prems p have lt: "int i < getSize s" and len: "Suc i + k < length (pending s2)"
    and kx: "k < length xs"
    by (simp_all add: getSize_pending st)
  from Suc.prems(4) p have nd: "\<not> is_due (clk i) x" by force
  from kx have nth: "pending s2 ! k = pending s ! Suc k" by (simp add: st p nth_append)
  with Suc.prems(3) have due: "is_due (clk (Suc i + k)) (pending s2 ! k)" by simp
  have rest: "\<forall>j<k. \<not> is_due (clk (Suc i + j)) (pending s2 ! j)"
  proof (intro allI impI)
    fix j assume "j < k"
    with kx have "pending s2 ! j = pending s ! Suc j" by (simp add: st p nth_append)
    moreover from Suc.prems(4) \<open>j < k\<close> have "\<not> is_due (clk (i + Suc j)) (pending s ! Suc j)"
      by (meson Suc_less_eq)
    ultimately show "\<not> is_due (clk (Suc i + j)) (pending s2 ! j)" by simp
  qed
  from Suc.IH [OF st(3) len due rest, of x] obtain s1' where
    r: "loop_from exec clk (Suc i) x calls s2 =
          Some (calls @ [callback (pending s2 ! k)], call exec (callback (pending s2 ! k)) s1')"
       "wellformed s1'"
       "pending s1' = drop (Suc k) (pending s2) @ take k (pending s2)"
       "queueSize s1' = queueSize s2" "overflowCallback s1' = overflowCallback s2"
    by blast
  have "loop_from exec clk i a calls s = loop_from exec clk (Suc i) x calls s2"
    by (subst loop_from.simps) (simp add: lt st(1,2) nd)
  with r(1) nth have "loop_from exec clk i a calls s =
          Some (calls @ [callback (pending s ! Suc k)], call exec (callback (pending s ! Suc k)) s1')"
    by simp
  moreover have "drop (Suc k) (pending s2) @ take k (pending s2) =
                 drop (Suc (Suc k)) (pending s) @ take (Suc k) (pending s)"
    using kx by (simp add: st p)
  ultimately show ?case using r st by (intro exI [of _ s1']) simp
qed

section \<open>The due test\<close>

lemma unat_minus_ulong:
  fixes x y :: ulong
  shows "unat (x - y) = (unat x + 2 ^ 32 - unat y) mod 2 ^ 32"
proof -
  have bx: "unat x < 2 ^ 32" and "unat y < 2 ^ 32"
    using unsigned_less [of x] unsigned_less [of y] by simp_all
  show ?thesis
  proof (cases "unat y \<le> unat x")
    case True
    then have "unat x + 2 ^ 32 - unat y = (unat x - unat y) + 1 * 2 ^ 32" by simp
    then have "(unat x + 2 ^ 32 - unat y) mod 2 ^ 32 = (unat x - unat y) mod 2 ^ 32"
      by (metis mod_mult_self1)
    also have "\<dots> = unat x - unat y" using bx by simp
    finally show ?thesis using True by (simp add: unat_sub_if_size)
  next
    case False
    then have "unat x + 2 ^ 32 - unat y < 2 ^ 32" by simp
    then have "(unat x + 2 ^ 32 - unat y) mod 2 ^ 32 = unat x + 2 ^ 32 - unat y"
      by (rule mod_less)
    then show ?thesis using False by (simp add: unat_sub_if_size word_size)
  qed
qed

text \<open>
  Claim C4. A task is due exactly when \<^verbatim>\<open>now - created\<close>, subtracted modulo \<open>2 ^ 32\<close>
  (the width of the clock), is strictly greater than its delay. If the task was created
  when the counter had counted \<open>t0\<close> ticks and \<open>e < 2 ^ 32\<close> ticks have passed since, so
  that the clock now shows \<open>t0 + e\<close> modulo \<open>2 ^ 32\<close>, however often the counter has
  wrapped, the test holds exactly when \<open>e\<close> exceeds the delay: no false positive and no
  false negative. The comparison is strict: with delay 0 the task is not due at \<open>e = 0\<close>
  and is due from the first tick on.
\<close>

theorem C4_due_strict_and_wrap_safe:
  "(is_due clk a \<longleftrightarrow>
      unat (delay a) <
        (unat (if useMicros a then micros clk else millis clk) + 2 ^ 32 - unat (created a))
          mod 2 ^ 32) \<and>
   (\<forall>t0 e :: nat.
      e < 2 ^ 32 \<and> created a = of_nat t0 \<and>
      (if useMicros a then micros clk else millis clk) = of_nat (t0 + e) \<longrightarrow>
      (is_due clk a \<longleftrightarrow> unat (delay a) < e) \<and>
      (delay a = 0 \<longrightarrow> (is_due clk a \<longleftrightarrow> e \<noteq> 0)))"
proof -
  let ?now = "if useMicros a then micros clk else millis clk"
  have d: "is_due clk a \<longleftrightarrow> unat (delay a) < unat (?now - created a)"
    by (simp add: is_due_def Let_def word_less_nat_alt)
  have "unat (?now - created a) = (unat ?now + 2 ^ 32 - unat (created a)) mod 2 ^ 32"
    by (rule unat_minus_ulong)
  with d have 1: "is_due clk a \<longleftrightarrow>
      unat (delay a) < (unat ?now + 2 ^ 32 - unat (created a)) mod 2 ^ 32"
    by simp
  have 2: "(is_due clk a \<longleftrightarrow> unat (delay a) < e) \<and>
           (delay a = 0 \<longrightarrow> (is_due clk a \<longleftrightarrow> e \<noteq> 0))"
    if e: "e < 2 ^ 32" and c: "created a = of_nat t0" and n: "?now = of_nat (t0 + e)"
    for t0 e :: nat
  proof -
    have "?now - created a = (of_nat e :: 32 word)"
      using c n by simp
    then have "unat (?now - created a) = e"
      using e by (simp add: unat_of_nat)
    with d have "is_due clk a \<longleftrightarrow> unat (delay a) < e" by simp
    then show ?thesis by simp
  qed
  from 1 2 show ?thesis by blast
qed

theorem C4_due_strict_and_wrap_safe_witness:
  "(10::nat) < 2 ^ 32 \<and>
   created \<lparr>callback = Callback_empty, useMicros = False, created = 4294967290, delay = 9\<rparr>
     = of_nat 4294967290 \<and>
   millis (at_time 4) = of_nat (4294967290 + 10) \<and>
   is_due (at_time 4)
     \<lparr>callback = Callback_empty, useMicros = False, created = 4294967290, delay = 9\<rparr> \<and>
   \<not> is_due (at_time 4)
     \<lparr>callback = Callback_empty, useMicros = False, created = 4294967290, delay = 10\<rparr>"
proof -
  let ?a = "\<lparr>callback = Callback_empty, useMicros = False, created = 4294967290, delay = 9\<rparr>"
  let ?b = "\<lparr>callback = Callback_empty, useMicros = False, created = 4294967290, delay = 10\<rparr>"
  have e: "(10::nat) < 2 ^ 32" by simp
  have ca: "created ?a = of_nat 4294967290" and cb: "created ?b = of_nat 4294967290" by simp_all
  have n: "millis (at_time 4) = of_nat (4294967290 + 10)" by (simp add: at_time_def)
  have na: "(if useMicros ?a then micros (at_time 4) else millis (at_time 4)) =
            of_nat (4294967290 + 10)"
    and nb: "(if useMicros ?b then micros (at_time 4) else millis (at_time 4)) =
            of_nat (4294967290 + 10)"
    using n by simp_all
  from C4_due_strict_and_wrap_safe [of "at_time 4" ?a, THEN conjunct2, rule_format,
      OF conjI [OF e conjI [OF ca na]], THEN conjunct1]
  have a: "is_due (at_time 4) ?a" by simp
  from C4_due_strict_and_wrap_safe [of "at_time 4" ?b, THEN conjunct2, rule_format,
      OF conjI [OF e conjI [OF cb nb]], THEN conjunct1]
  have b: "\<not> is_due (at_time 4) ?b" by simp
  from e ca n a b show ?thesis by (intro conjI)
qed

section \<open>Capacity\<close>

lemma Actions_ctor_returns:
  "- 1 \<le> n \<Longrightarrow>
   Actions_ctor n =
     Inr \<lparr>queue = replicate (nat (n + 1)) Action_empty, queueSize = n + 1, head = 0, tail = 0,
          overflowCallback = None\<rparr>"
  by (simp add: Actions_ctor_def Let_def)

lemma Actions_ctor_throws:
  "n < - 1 \<Longrightarrow> Actions_ctor n = Inl BadArrayNewLength"
  by (simp add: Actions_ctor_def Let_def)

lemma Actions_ctor_fields:
  "Actions_ctor n = Inr s0 \<Longrightarrow>
   - 1 \<le> n \<and>
   s0 = \<lparr>queue = replicate (nat (n + 1)) Action_empty, queueSize = n + 1, head = 0, tail = 0,
         overflowCallback = None\<rparr>"
  by (auto simp: Actions_ctor_def Let_def split: if_splits)

lemma Actions_ctor_projr:
  "- 1 \<le> n \<Longrightarrow> Actions_ctor n = Inr (projr (Actions_ctor n))"
  by (simp add: Actions_ctor_returns)

lemma wellformed_ctor: "Actions_ctor n = Inr s0 \<Longrightarrow> wellformed s0"
  by (drule Actions_ctor_fields) (simp add: wellformed_def)

lemma pending_ctor: "Actions_ctor n = Inr s0 \<Longrightarrow> pending s0 = []"
  by (drule Actions_ctor_fields) (simp add: pending_def)

lemma runLater_rejects:
  "isFull s \<Longrightarrow> fst (runLater exec a s) = False"
  by (simp add: runLater_def split: option.split)

lemma runLater_each_fits:
  "wellformed s \<Longrightarrow> int (length (pending s)) + int (length as) \<le> queueSize s - 1 \<Longrightarrow>
   \<exists>s'. runLater_each exec as s = (replicate (length as) True, s') \<and> wellformed s' \<and>
        pending s' = pending s @ as \<and> queueSize s' = queueSize s \<and>
        overflowCallback s' = overflowCallback s"
proof (induction as arbitrary: s)
  case Nil
  then show ?case by simp
next
  case (Cons a as)
  from Cons.prems have "\<not> isFull s" by (simp add: isFull_pending)
  from runLater_stores [OF Cons.prems(1) this, of exec a] obtain s1 where
    s1: "runLater exec a s = (True, [], s1)" "wellformed s1" "pending s1 = pending s @ [a]"
        "queueSize s1 = queueSize s" "overflowCallback s1 = overflowCallback s"
    by blast
  from Cons.prems s1 have "int (length (pending s1)) + int (length as) \<le> queueSize s1 - 1"
    by simp
  from Cons.IH [OF s1(2) this] obtain s' where
    "runLater_each exec as s1 = (replicate (length as) True, s')" "wellformed s'"
    "pending s' = pending s1 @ as" "queueSize s' = queueSize s1"
    "overflowCallback s' = overflowCallback s1"
    by blast
  with s1 show ?case by simp
qed

lemma runLater_each_append:
  "runLater_each exec (as @ bs) s =
     (fst (runLater_each exec as s) @ fst (runLater_each exec bs (snd (runLater_each exec as s))),
      snd (runLater_each exec bs (snd (runLater_each exec as s))))"
  by (induction as arbitrary: s) (auto split: prod.splits)

text \<open>
  Claim C6. On a scheduler of capacity \<open>k > 0\<close> (queue size \<open>k + 1\<close>) whose queue is empty,
  as the constructor leaves it, with no call of \<^verbatim>\<open>loop\<close> in between, the first \<open>k\<close>
  consecutive calls of \<^verbatim>\<open>runLater\<close> return true and store their actions, and call
  \<open>k + 1\<close> returns false. No well-formed scheduler of that size holds more than \<open>k\<close>
  pending tasks, although its array has \<open>k + 1\<close> slots.
\<close>

theorem C6_capacity_tasks_accepted:
  assumes "0 < k" and "length as = nat k"
    and "wellformed s" and "queueSize s = k + 1" and "pending s = []"
  shows "fst (runLater_each exec (as @ [b]) s) = replicate (nat k) True @ [False] \<and>
         pending (snd (runLater_each exec as s)) = as \<and>
         (\<forall>s'. wellformed s' \<and> queueSize s' = k + 1 \<longrightarrow>
               getSize s' \<le> k \<and> length (queue s') = nat k + 1) \<and>
         (\<exists>s0. Actions_ctor k = Inr s0 \<and> wellformed s0 \<and> queueSize s0 = k + 1 \<and>
               pending s0 = [])"
proof -
  from assms have "int (length (pending s)) + int (length as) \<le> queueSize s - 1" by simp
  from runLater_each_fits [OF assms(3) this, of exec] obtain s1 where
    s1: "runLater_each exec as s = (replicate (length as) True, s1)" "wellformed s1"
        "pending s1 = pending s @ as" "queueSize s1 = queueSize s"
    by blast
  from s1 assms have "isFull s1" by (simp add: isFull_pending)
  then have "fst (runLater exec b s1) = False" by (rule runLater_rejects)
  then have 1: "fst (runLater_each exec (as @ [b]) s) = replicate (nat k) True @ [False]"
    using s1(1) assms(2) by (auto simp: runLater_each_append split: prod.splits)
  have 2: "pending (snd (runLater_each exec as s)) = as"
    using s1 assms(5) by simp
  have 3: "\<forall>s'. wellformed s' \<and> queueSize s' = k + 1 \<longrightarrow>
               getSize s' \<le> k \<and> length (queue s') = nat k + 1"
  proof (intro allI impI)
    fix s' assume a: "wellformed s' \<and> queueSize s' = k + 1"
    with pending_bound [of s'] assms(1) have "getSize s' \<le> k"
      by (simp add: getSize_pending)
    moreover from a assms(1) have "length (queue s') = nat k + 1"
      by (simp add: wellformed_def nat_add_distrib)
    ultimately show "getSize s' \<le> k \<and> length (queue s') = nat k + 1" ..
  qed
  have c: "Actions_ctor k = Inr (projr (Actions_ctor k))"
    using assms(1) by (intro Actions_ctor_projr) simp
  from assms(1) have "queueSize (projr (Actions_ctor k)) = k + 1"
    by (simp add: Actions_ctor_returns)
  with c wellformed_ctor [OF c] pending_ctor [OF c]
  have 4: "\<exists>s0. Actions_ctor k = Inr s0 \<and> wellformed s0 \<and> queueSize s0 = k + 1 \<and>
               pending s0 = []"
    by blast
  from 1 2 3 4 show ?thesis by (intro conjI)
qed

theorem C6_capacity_tasks_accepted_witness:
  "(0::int) < 2 \<and>
   Actions_ctor 2 = Inr (projr (Actions_ctor 2)) \<and>
   fst (runLater_each idle
     ([Action_ctor (at_time 0) (Callback_function (Some 1)) 5 False,
       Action_ctor (at_time 0) (Callback_function (Some 2)) 5 False] @
      [Action_ctor (at_time 0) (Callback_function (Some 3)) 5 False]) (projr (Actions_ctor 2)))
     = replicate (nat 2) True @ [False]"
proof -
  let ?as = "[Action_ctor (at_time 0) (Callback_function (Some 1)) 5 False,
              Action_ctor (at_time 0) (Callback_function (Some 2)) 5 False]"
  have h1: "(0::int) < 2" by simp
  have h2: "length ?as = nat 2" by simp
  have c: "Actions_ctor 2 = Inr (projr (Actions_ctor 2))"
    by (rule Actions_ctor_projr) simp
  have h3: "wellformed (projr (Actions_ctor 2))" by (rule wellformed_ctor [OF c])
  have h4: "queueSize (projr (Actions_ctor 2)) = 2 + 1"
    by (simp add: Actions_ctor_returns)
  have h5: "pending (projr (Actions_ctor 2)) = []" by (rule pending_ctor [OF c])
  from C6_capacity_tasks_accepted [OF h1 h2 h3 h4 h5, THEN conjunct1] h1 c
  show ?thesis by (intro conjI)
qed

text \<open>
  Claim C7 says that a scheduler constructed with any size \<open>c \<le> 0\<close> exists and rejects
  every \<^verbatim>\<open>runLater\<close>. For \<open>c \<le> -2\<close> the constructor does not get that far: it asks for
  an array of \<open>c + 1 < 0\<close> slots and the allocation fails, so there is no scheduler whose
  \<^verbatim>\<open>runLater\<close> could return false. For the sizes 0 and -1 the constructor returns, and
  on the scheduler it built \<^verbatim>\<open>runLater\<close>, in each of its overloads and whatever the
  delay, returns false and leaves the scheduler as constructed; so does \<^verbatim>\<open>loop\<close>; hence
  every later call of \<^verbatim>\<open>runLater\<close> returns false as well.
\<close>

theorem C7_constructor_fails_below_minus_one:
  "(c \<le> - 2 \<longrightarrow> Actions_ctor c = Inl BadArrayNewLength) \<and>
   (c = 0 \<or> c = - 1 \<longrightarrow>
      (\<exists>s0. Actions_ctor c = Inr s0 \<and>
         runLater exec a s0 = (False, [], s0) \<and>
         runLater_function exec clk f d um s0 = (False, [], s0) \<and>
         runLater_method exec clk inst meth d um s0 = (False, [], s0) \<and>
         loop exec clks s0 = Some ((), [], s0) \<and>
         fst (runLater_each exec as s0) = replicate (length as) False))"
proof -
  have 1: "Actions_ctor c = Inl BadArrayNewLength" if "c \<le> - 2"
    using that by (simp add: Actions_ctor_throws)
  have 2: "\<exists>s0. Actions_ctor c = Inr s0 \<and>
         runLater exec a s0 = (False, [], s0) \<and>
         runLater_function exec clk f d um s0 = (False, [], s0) \<and>
         runLater_method exec clk inst meth d um s0 = (False, [], s0) \<and>
         loop exec clks s0 = Some ((), [], s0) \<and>
         fst (runLater_each exec as s0) = replicate (length as) False"
    if c: "c = 0 \<or> c = - 1"
  proof -
    let ?s0 = "\<lparr>queue = replicate (nat (c + 1)) Action_empty, queueSize = c + 1, head = 0,
                tail = 0, overflowCallback = None\<rparr>"
    from c have ctor: "Actions_ctor c = Inr ?s0"
      by (intro Actions_ctor_returns) auto
    have full: "isFull ?s0" and none: "overflowCallback ?s0 = None"
      using c by (auto simp: isFull_def)
    have r: "runLater exec a ?s0 = (False, [], ?s0)" for a
      using full none by (simp add: runLater_def)
    have "getSize ?s0 = 0"
      by (simp add: getSize_def)
    then have "loop_from exec clks 0 Action_empty [] ?s0 = Some ([], ?s0)"
      by (subst loop_from.simps) simp
    then have l: "loop exec clks ?s0 = Some ((), [], ?s0)"
      by (simp add: loop_def)
    have e: "runLater_each exec as ?s0 = (replicate (length as) False, ?s0)"
      by (induction as) (simp_all add: r)
    from ctor r l e show ?thesis
      by (intro exI [of _ ?s0]) (simp add: runLater_function_def runLater_method_def)
  qed
  from 1 2 show ?thesis by blast
qed

theorem C7_constructor_fails_below_minus_one_witness:
  "(- 2 :: int) \<le> - 2 \<and>
   Actions_ctor (- 2) = Inl BadArrayNewLength \<and>
   Actions_ctor (- 3) = Inl BadArrayNewLength \<and>
   (\<exists>s0. Actions_ctor (- 1) = Inr s0 \<and>
      runLater_function idle (at_time 7) (Some 1) 0 False s0 = (False, [], s0)) \<and>
   (\<exists>s0. Actions_ctor 0 = Inr s0 \<and>
      runLater_function idle (at_time 7) (Some 1) 1000 True s0 = (False, [], s0))"
proof -
  have a: "Actions_ctor (- 2) = Inl BadArrayNewLength"
    using C7_constructor_fails_below_minus_one [of "- 2", THEN conjunct1] by simp
  have b: "Actions_ctor (- 3) = Inl BadArrayNewLength"
    using C7_constructor_fails_below_minus_one [of "- 3", THEN conjunct1] by simp
  have m: "(- 1 :: int) = 0 \<or> (- 1 :: int) = - 1" and z: "(0 :: int) = 0 \<or> (0 :: int) = - 1"
    by simp_all
  from C7_constructor_fails_below_minus_one
         [of "- 1" idle Action_empty "at_time 7" "Some 1" 0 False None None "\<lambda>i. at_time 7" "[]",
          THEN conjunct2, THEN mp, OF m]
  obtain s1 where "Actions_ctor (- 1) = Inr s1"
    "runLater_function idle (at_time 7) (Some 1) 0 False s1 = (False, [], s1)"
    by blast
  then have c: "\<exists>s0. Actions_ctor (- 1) = Inr s0 \<and>
      runLater_function idle (at_time 7) (Some 1) 0 False s0 = (False, [], s0)"
    by blast
  from C7_constructor_fails_below_minus_one
         [of 0 idle Action_empty "at_time 7" "Some 1" 1000 True None None "\<lambda>i. at_time 7" "[]",
          THEN conjunct2, THEN mp, OF z]
  obtain s2 where "Actions_ctor 0 = Inr s2"
    "runLater_function idle (at_time 7) (Some 1) 1000 True s2 = (False, [], s2)"
    by blast
  then have d: "\<exists>s0. Actions_ctor 0 = Inr s0 \<and>
      runLater_function idle (at_time 7) (Some 1) 1000 True s0 = (False, [], s0)"
    by blast
  from a b c d show ?thesis by (intro conjI) simp_all
qed

section \<open>One call of loop\<close>

lemma first_index_cases:
  fixes P :: "nat \<Rightarrow> bool"
  shows "(\<forall>k<n. \<not> P k) \<or> (\<exists>k<n. P k \<and> (\<forall>j<k. \<not> P j))"
proof (cases "\<exists>k. k < n \<and> P k")
  case True
  then obtain k where "k < n \<and> P k" and "\<forall>m<k. \<not> (m < n \<and> P m)"
    using exists_least_iff [of "\<lambda>k. k < n \<and> P k"] by blast
  then have "k < n" "P k" "\<forall>j<k. \<not> P j" by auto
  then show ?thesis by blast
next
  case False
  then show ?thesis by blast
qed

lemma loop_idle:
  assumes "wellformed s" and "\<forall>k<length (pending s). \<not> is_due (clk k) (pending s ! k)"
  shows "\<exists>s'. loop exec clk s = Some ((), [], s') \<and> wellformed s' \<and>
           pending s' = pending s \<and> queueSize s' = queueSize s \<and>
           overflowCallback s' = overflowCallback s"
proof -
  from loop_from_idle [of s 0 "length (pending s)" clk exec Action_empty "[]"] assms
  show ?thesis by (auto simp: loop_def)
qed

lemma loop_dispatch:
  assumes "wellformed s" and "k < length (pending s)"
    and "is_due (clk k) (pending s ! k)"
    and "\<forall>j<k. \<not> is_due (clk j) (pending s ! j)"
  shows "\<exists>s1. loop exec clk s =
             Some ((), [callback (pending s ! k)], call exec (callback (pending s ! k)) s1) \<and>
           wellformed s1 \<and>
           pending s1 = drop (Suc k) (pending s) @ take k (pending s) \<and>
           queueSize s1 = queueSize s \<and> overflowCallback s1 = overflowCallback s"
proof -
  from loop_from_dispatch [of s 0 k clk exec Action_empty "[]"] assms
  show ?thesis by (auto simp: loop_def)
qed

lemma call_idle: "call idle cb s = s"
  by (simp add: call_def idle_def)

lemma call_preserves:
  assumes "\<forall>t s0. P s0 \<longrightarrow> P (exec t s0)" and "P s"
  shows "P (call exec cb s)"
  using assms by (simp add: call_def)

lemma loop_result:
  assumes wf: "wellformed s"
  shows "\<exists>calls s' s1. loop exec clk s = Some ((), calls, s') \<and> length calls \<le> 1 \<and>
           wellformed s1 \<and> queueSize s1 = queueSize s \<and>
           overflowCallback s1 = overflowCallback s \<and>
           (s' = s1 \<or> (\<exists>cb. s' = call exec cb s1))"
proof -
  let ?P = "\<lambda>k. is_due (clk k) (pending s ! k)"
  from first_index_cases [of "length (pending s)" ?P]
  consider "\<forall>k<length (pending s). \<not> ?P k"
    | k where "k < length (pending s)" "?P k" "\<forall>j<k. \<not> ?P j"
    by blast
  then show ?thesis
  proof cases
    case 1
    from loop_idle [OF wf 1, of exec] show ?thesis by auto
  next
    case 2
    from loop_dispatch [OF wf 2, of exec] obtain s1 where
      "loop exec clk s =
         Some ((), [callback (pending s ! k)], call exec (callback (pending s ! k)) s1)"
      "wellformed s1" "queueSize s1 = queueSize s" "overflowCallback s1 = overflowCallback s"
      by blast
    then show ?thesis by auto
  qed
qed

lemma loop_returns:
  assumes wf: "wellformed s"
  shows "\<exists>calls s'. loop exec clk s = Some ((), calls, s') \<and> length calls \<le> 1 \<and>
           ((\<forall>t s0. wellformed s0 \<longrightarrow> wellformed (exec t s0)) \<longrightarrow> wellformed s')"
  using loop_result [OF wf, of exec clk] call_preserves [of wellformed exec] by metis

lemma polls_bound:
  assumes ex: "\<forall>t s0. wellformed s0 \<longrightarrow> wellformed (exec t s0)"
  shows "wellformed s \<Longrightarrow>
         \<exists>calls s'. polls exec clks s = Some (calls, s') \<and> length calls \<le> length clks \<and>
           wellformed s'"
proof (induction clks arbitrary: s)
  case Nil
  then show ?case by simp
next
  case (Cons clk clks)
  from loop_returns [OF Cons.prems, of exec clk] ex obtain calls s1 where
    l: "loop exec clk s = Some ((), calls, s1)" "length calls \<le> 1" "wellformed s1"
    by blast
  from Cons.IH [OF l(3)] obtain calls' s2 where
    "polls exec clks s1 = Some (calls', s2)" "length calls' \<le> length clks" "wellformed s2"
    by blast
  with l show ?case by simp
qed

lemma polls_all_due:
  "wellformed s \<Longrightarrow> length clks \<le> length (pending s) \<Longrightarrow>
   (\<forall>c\<in>set clks. \<forall>a\<in>set (pending s). \<forall>i. is_due (c i) a) \<Longrightarrow>
   \<exists>s'. polls idle clks s = Some (map callback (take (length clks) (pending s)), s') \<and>
        pending s' = drop (length clks) (pending s) \<and> wellformed s'"
proof (induction clks arbitrary: s)
  case Nil
  then show ?case by simp
next
  case (Cons clk clks)
  then obtain x xs where p: "pending s = x # xs"
    by (cases "pending s") auto
  with Cons.prems(3) have due: "is_due (clk 0) (pending s ! 0)" by simp
  from loop_dispatch [of s 0 clk idle] Cons.prems(1) due p obtain s1 where
    l: "loop idle clk s = Some ((), [callback x], s1)" "wellformed s1" "pending s1 = xs"
    by (auto simp: call_idle)
  from Cons.prems p l have "length clks \<le> length (pending s1)"
    and "\<forall>c\<in>set clks. \<forall>a\<in>set (pending s1). \<forall>i. is_due (c i) a"
    by simp_all
  from Cons.IH [OF l(2) this] obtain s' where
    "polls idle clks s1 = Some (map callback (take (length clks) (pending s1)), s')"
    "pending s' = drop (length clks) (pending s1)" "wellformed s'"
    by blast
  with l p show ?case by simp
qed

text \<open>
  Claim C1. On every well-formed scheduler a call of \<^verbatim>\<open>loop\<close> returns and calls at most
  one stored callback. If entry \<open>k\<close> of the queue is the first one due, its callback is
  the only one called; when it is called the queue holds all other entries, also those that
  are due as well, and the state the callback leaves is the state \<^verbatim>\<open>loop\<close> returns: no
  further entry is examined. So a number of calls of \<^verbatim>\<open>loop\<close> makes at most that many
  callback calls (for user functions that keep the scheduler well-formed), and when all
  pending tasks are due and the callbacks leave the scheduler alone, \<open>n\<close> calls of
  \<^verbatim>\<open>loop\<close> call exactly the first \<open>n\<close> callbacks and leave the others pending.
\<close>

theorem C1_one_call_per_loop:
  assumes "wellformed s"
  shows
    "(\<exists>calls s'. loop exec clk s = Some ((), calls, s') \<and> length calls \<le> 1) \<and>
     (\<forall>k<length (pending s).
        is_due (clk k) (pending s ! k) \<and> (\<forall>j<k. \<not> is_due (clk j) (pending s ! j)) \<longrightarrow>
        (\<exists>s1. loop exec clk s =
                 Some ((), [callback (pending s ! k)], call exec (callback (pending s ! k)) s1) \<and>
              pending s1 = drop (Suc k) (pending s) @ take k (pending s))) \<and>
     ((\<forall>t s0. wellformed s0 \<longrightarrow> wellformed (exec t s0)) \<longrightarrow>
        (\<exists>calls s'. polls exec clks s = Some (calls, s') \<and> length calls \<le> length clks)) \<and>
     (length clks \<le> length (pending s) \<and>
      (\<forall>c\<in>set clks. \<forall>a\<in>set (pending s). \<forall>i. is_due (c i) a) \<longrightarrow>
        (\<exists>s'. polls idle clks s = Some (map callback (take (length clks) (pending s)), s') \<and>
              pending s' = drop (length clks) (pending s)))"
proof -
  have 1: "\<exists>calls s'. loop exec clk s = Some ((), calls, s') \<and> length calls \<le> 1"
    using loop_returns [OF assms, of exec clk] by blast
  have 2: "\<forall>k<length (pending s).
        is_due (clk k) (pending s ! k) \<and> (\<forall>j<k. \<not> is_due (clk j) (pending s ! j)) \<longrightarrow>
        (\<exists>s1. loop exec clk s =
                 Some ((), [callback (pending s ! k)], call exec (callback (pending s ! k)) s1) \<and>
              pending s1 = drop (Suc k) (pending s) @ take k (pending s))"
    using loop_dispatch [OF assms, of _ clk exec] by blast
  have 3: "(\<forall>t s0. wellformed s0 \<longrightarrow> wellformed (exec t s0)) \<longrightarrow>
        (\<exists>calls s'. polls exec clks s = Some (calls, s') \<and> length calls \<le> length clks)"
    using polls_bound [of exec s clks] assms by blast
  have 4: "length clks \<le> length (pending s) \<and>
      (\<forall>c\<in>set clks. \<forall>a\<in>set (pending s). \<forall>i. is_due (c i) a) \<longrightarrow>
        (\<exists>s'. polls idle clks s = Some (map callback (take (length clks) (pending s)), s') \<and>
              pending s' = drop (length clks) (pending s))"
    using polls_all_due [OF assms, of clks] by blast
  from 1 2 3 4 show ?thesis by blast
qed

theorem C1_one_call_per_loop_witness:
  "wellformed three_tasks \<and>
   (\<exists>s1. loop idle (\<lambda>i. at_time 5000) three_tasks =
            Some ((), [Callback_function (Some 1)], call idle (Callback_function (Some 1)) s1) \<and>
          pending s1 =
            [Action_ctor (at_time 1) (Callback_function (Some 2)) 0 False,
             Action_ctor (at_time 2) (Callback_function (Some 3)) 500 False]) \<and>
   (\<exists>s'. polls idle [\<lambda>i. at_time 5000, \<lambda>i. at_time 5001, \<lambda>i. at_time 5002] three_tasks =
            Some ([Callback_function (Some 1), Callback_function (Some 2),
                   Callback_function (Some 3)], s') \<and>
          pending s' = [])"
proof -
  let ?clks = "[\<lambda>i. at_time 5000, \<lambda>i. at_time 5001, \<lambda>i. at_time 5002]"
  have wf: "wellformed three_tasks" by code_simp
  have p: "pending three_tasks =
      [Action_ctor (at_time 0) (Callback_function (Some 1)) 1000 False,
       Action_ctor (at_time 1) (Callback_function (Some 2)) 0 False,
       Action_ctor (at_time 2) (Callback_function (Some 3)) 500 False]"
    by code_simp
  have due: "\<forall>c\<in>set ?clks. \<forall>a\<in>set (pending three_tasks). \<forall>i. is_due (c i) a"
    unfolding p by (simp add: is_due_def at_time_def Action_ctor_def)
  have first: "is_due (at_time 5000) (pending three_tasks ! 0) \<and>
      (\<forall>j<0. \<not> is_due (at_time 5000) (pending three_tasks ! j))"
    unfolding p by (simp add: is_due_def at_time_def Action_ctor_def)
  have len: "length ?clks \<le> length (pending three_tasks)"
    unfolding p by simp
  have k0: "0 < length (pending three_tasks)"
    unfolding p by simp
  note c1 = C1_one_call_per_loop [OF wf, of idle "\<lambda>i. at_time 5000" ?clks]
  note c2 = c1 [THEN conjunct2, THEN conjunct1, rule_format, OF k0 first]
  note c4 = c1 [THEN conjunct2, THEN conjunct2, THEN conjunct2, THEN mp, OF conjI [OF len due]]
  from c2 [unfolded p]
  have a: "\<exists>s1. loop idle (\<lambda>i. at_time 5000) three_tasks =
            Some ((), [Callback_function (Some 1)], call idle (Callback_function (Some 1)) s1) \<and>
          pending s1 =
            [Action_ctor (at_time 1) (Callback_function (Some 2)) 0 False,
             Action_ctor (at_time 2) (Callback_function (Some 3)) 500 False]"
    by (simp add: Action_ctor_def)
  from c4 [unfolded p]
  have b: "\<exists>s'. polls idle ?clks three_tasks =
            Some ([Callback_function (Some 1), Callback_function (Some 2),
                   Callback_function (Some 3)], s') \<and>
          pending s' = []"
    by (simp add: Action_ctor_def)
  from wf a b show ?thesis by (intro conjI)
qed



lemma loop_silent_iff:
  assumes wf: "wellformed s"
  shows "(\<exists>s'. loop exec clk s = Some ((), [], s')) \<longleftrightarrow>
         (\<forall>k<length (pending s). \<not> is_due (clk k) (pending s ! k))"
proof
  assume l: "\<exists>s'. loop exec clk s = Some ((), [], s')"
  show "\<forall>k<length (pending s). \<not> is_due (clk k) (pending s ! k)"
  proof (rule ccontr)
    assume "\<not> ?thesis"
    with first_index_cases [of "length (pending s)" "\<lambda>k. is_due (clk k) (pending s ! k)"]
    obtain k where "k < length (pending s)" "is_due (clk k) (pending s ! k)"
      "\<forall>j<k. \<not> is_due (clk j) (pending s ! j)"
      by blast
    from loop_dispatch [OF wf this, of exec] l show False by auto
  qed
next
  assume "\<forall>k<length (pending s). \<not> is_due (clk k) (pending s ! k)"
  from loop_idle [OF wf this, of exec] show "\<exists>s'. loop exec clk s = Some ((), [], s')"
    by blast
qed

text \<open>
  Claim C8. On a well-formed scheduler \<^verbatim>\<open>loop\<close> returns without calling a callback
  exactly when no pending entry is due at the time it is examined (entry \<open>k\<close> in
  iteration \<open>k\<close>); the pending tasks are then the same \<^verbatim>\<open>Action\<close> values, with their
  \<^verbatim>\<open>created\<close> and \<^verbatim>\<open>delay\<close>, in the same order as before the call.
\<close>

theorem C8_loop_without_call_keeps_tasks:
  assumes "wellformed s"
  shows "((\<exists>s'. loop exec clk s = Some ((), [], s')) \<longleftrightarrow>
            (\<forall>k<length (pending s). \<not> is_due (clk k) (pending s ! k))) \<and>
         (\<forall>s'. loop exec clk s = Some ((), [], s') \<longrightarrow>
            pending s' = pending s \<and> wellformed s' \<and> getSize s' = getSize s)"
proof -
  have "pending s' = pending s \<and> wellformed s' \<and> getSize s' = getSize s"
    if l: "loop exec clk s = Some ((), [], s')" for s'
  proof -
    from l loop_silent_iff [OF assms, of exec clk]
    have "\<forall>k<length (pending s). \<not> is_due (clk k) (pending s ! k)" by blast
    from loop_idle [OF assms this, of exec] l
    have "wellformed s'" "pending s' = pending s" by auto
    with assms show ?thesis by (simp add: getSize_pending)
  qed
  with loop_silent_iff [OF assms, of exec clk] show ?thesis by blast
qed

theorem C8_loop_without_call_keeps_tasks_witness:
  "wellformed (snd (snd (runLater_function idle (at_time 50) (Some 1) 1000 False (projr (Actions_ctor 10))))) \<and>
   (\<exists>s'. loop idle (\<lambda>i. at_time 50)
       (snd (snd (runLater_function idle (at_time 50) (Some 1) 1000 False (projr (Actions_ctor 10)))))
         = Some ((), [], s') \<and>
      pending s' = [Action_ctor (at_time 50) (Callback_function (Some 1)) 1000 False])"
proof -
  let ?s = "snd (snd (runLater_function idle (at_time 50) (Some 1) 1000 False (projr (Actions_ctor 10))))"
  have wf: "wellformed ?s" by code_simp
  have p: "pending ?s = [Action_ctor (at_time 50) (Callback_function (Some 1)) 1000 False]"
    by code_simp
  have nd: "\<forall>k<length (pending ?s). \<not> is_due (at_time 50) (pending ?s ! k)"
    unfolding p by (simp add: is_due_def at_time_def Action_ctor_def)
  note c = C8_loop_without_call_keeps_tasks [OF wf, of idle "\<lambda>i. at_time 50"]
  from c [THEN conjunct1, THEN iffD2, OF nd] obtain s' where
    l: "loop idle (\<lambda>i. at_time 50) ?s = Some ((), [], s')" ..
  from c [THEN conjunct2, rule_format, OF l] have "pending s' = pending ?s"
    by (rule conjunct1)
  with p have q: "pending s' = [Action_ctor (at_time 50) (Callback_function (Some 1)) 1000 False]"
    by simp
  from l q have "\<exists>s'. loop idle (\<lambda>i. at_time 50) ?s = Some ((), [], s') \<and>
      pending s' = [Action_ctor (at_time 50) (Callback_function (Some 1)) 1000 False]"
    by (intro exI [of _ s'] conjI)
  with wf show ?thesis by (rule conjI)
qed

section \<open>Index bounds\<close>

lemma bounds_wellformed:
  "0 \<le> n \<Longrightarrow> bounds n s \<longleftrightarrow> wellformed s \<and> queueSize s = n + 1"
  by (auto simp: bounds_def wellformed_def)

lemma runLater_bounds:
  assumes n: "0 \<le> n" and ex: "\<forall>t s0. bounds n s0 \<longrightarrow> bounds n (exec t s0)"
    and b: "bounds n s"
  shows "bounds n (snd (snd (runLater exec a s)))"
proof (cases "isFull s")
  case True
  then show ?thesis
    using b call_preserves [of "bounds n" exec s] ex
    by (simp add: runLater_def split: option.split)
next
  case False
  from b n have "wellformed s" "queueSize s = n + 1" by (simp_all add: bounds_wellformed)
  with runLater_stores [OF this(1) False, of exec a] n show ?thesis
    by (auto simp: bounds_wellformed)
qed

lemma remove_bounds:
  "bounds n s \<Longrightarrow> bounds n (snd (snd (remove a s)))"
  by (auto simp: bounds_def remove_def nextSlot_def)

lemma loop_bounds:
  assumes n: "0 \<le> n" and ex: "\<forall>t s0. bounds n s0 \<longrightarrow> bounds n (exec t s0)"
    and b: "bounds n s"
  shows "\<exists>calls s'. loop exec clk s = Some ((), calls, s') \<and> bounds n s'"
proof -
  from b n have wf: "wellformed s" and q: "queueSize s = n + 1"
    by (simp_all add: bounds_wellformed)
  from loop_result [OF wf, of exec clk] obtain calls s' s1 where
    l: "loop exec clk s = Some ((), calls, s')" "wellformed s1" "queueSize s1 = queueSize s"
       "s' = s1 \<or> (\<exists>cb. s' = call exec cb s1)"
    by blast
  from l(2,3) q n have "bounds n s1" by (simp add: bounds_wellformed)
  with l(4) call_preserves [of "bounds n" exec s1] ex have "bounds n s'" by blast
  with l(1) show ?thesis by blast
qed

text \<open>
  Claim C10. For a scheduler built with size \<open>n \<ge> 0\<close>, \<^verbatim>\<open>head\<close> and \<^verbatim>\<open>tail\<close> lie in
  \<open>[0, n + 1)\<close> after the constructor and after every \<^verbatim>\<open>runLater\<close>, \<^verbatim>\<open>remove\<close> and
  \<^verbatim>\<open>loop\<close> (which returns), so \<^verbatim>\<open>queue[head]\<close> and \<^verbatim>\<open>queue[tail]\<close> are among the
  \<open>n + 1\<close> allocated slots. The user functions called on the way are assumed to keep the
  bounds, as they do when they act on the scheduler through these operations.
\<close>

theorem C10_indices_within_array:
  assumes "0 \<le> n" and "\<forall>t s0. bounds n s0 \<longrightarrow> bounds n (exec t s0)"
  shows "(\<exists>s0. Actions_ctor n = Inr s0 \<and> bounds n s0) \<and>
         (\<forall>a s. bounds n s \<longrightarrow> bounds n (snd (snd (runLater exec a s)))) \<and>
         (\<forall>a s. bounds n s \<longrightarrow> bounds n (snd (snd (remove a s)))) \<and>
         (\<forall>clk s. bounds n s \<longrightarrow>
            (\<exists>calls s'. loop exec clk s = Some ((), calls, s') \<and> bounds n s')) \<and>
         (\<forall>s. bounds n s \<longrightarrow>
            0 \<le> head s \<and> nat (head s) < length (queue s) \<and>
            0 \<le> tail s \<and> nat (tail s) < length (queue s) \<and>
            length (queue s) = nat (n + 1))"
proof -
  have 1: "\<exists>s0. Actions_ctor n = Inr s0 \<and> bounds n s0"
    using assms(1) by (simp add: bounds_def Actions_ctor_returns)
  have 2: "\<forall>a s. bounds n s \<longrightarrow> bounds n (snd (snd (runLater exec a s)))"
    using runLater_bounds [OF assms] by blast
  have 3: "\<forall>a s. bounds n s \<longrightarrow> bounds n (snd (snd (remove a s)))"
    using remove_bounds by blast
  have 4: "\<forall>clk s. bounds n s \<longrightarrow>
            (\<exists>calls s'. loop exec clk s = Some ((), calls, s') \<and> bounds n s')"
    using loop_bounds [OF assms] by blast
  have 5: "\<forall>s. bounds n s \<longrightarrow>
            0 \<le> head s \<and> nat (head s) < length (queue s) \<and>
            0 \<le> tail s \<and> nat (tail s) < length (queue s) \<and>
            length (queue s) = nat (n + 1)"
    by (auto simp: bounds_def)
  from 1 2 3 4 5 show ?thesis by (intro conjI)
qed

theorem C10_indices_within_array_witness:
  "(0::int) \<le> 2 \<and>
   Actions_ctor 2 = Inr (projr (Actions_ctor 2)) \<and>
   bounds 2 (projr (Actions_ctor 2)) \<and>
   bounds 2 (snd (snd (runLater
      (\<lambda>t s0. snd (snd (runLater_function idle (at_time 9) (Some 7) 100 False s0)))
      (Action_ctor (at_time 0) (Callback_function (Some 1)) 0 False) (projr (Actions_ctor 2))))) \<and>
   (\<exists>calls s'.
      loop (\<lambda>t s0. snd (snd (runLater_function idle (at_time 9) (Some 7) 100 False s0)))
        (\<lambda>i. at_time 9)
        (snd (snd (runLater_function idle (at_time 0) (Some 1) 0 False (projr (Actions_ctor 2)))))
        = Some ((), calls, s') \<and>
      bounds 2 s')"
proof -
  let ?exec = "\<lambda>(t::target) s0. snd (snd (runLater_function idle (at_time 9) (Some 7) 100 False s0))"
  have n: "(0::int) \<le> 2" by simp
  have idle: "\<forall>t s0. bounds 2 s0 \<longrightarrow> bounds 2 (idle t s0)"
    by (simp add: idle_def)
  have ex: "\<forall>t s0. bounds 2 s0 \<longrightarrow> bounds 2 (?exec t s0)"
    using runLater_bounds [OF n idle] by (simp add: runLater_function_def)
  note c = C10_indices_within_array [OF n ex]
  have p: "Actions_ctor 2 = Inr (projr (Actions_ctor 2))"
    by (rule Actions_ctor_projr) simp
  from c [THEN conjunct1] p have b0: "bounds 2 (projr (Actions_ctor 2))"
    by auto
  have b1: "bounds 2 (snd (snd (runLater ?exec
      (Action_ctor (at_time 0) (Callback_function (Some 1)) 0 False) (projr (Actions_ctor 2)))))"
    by (rule c [THEN conjunct2, THEN conjunct1, rule_format, OF b0])
  have "bounds 2 (snd (snd (runLater_function idle (at_time 0) (Some 1) 0 False
      (projr (Actions_ctor 2)))))"
    using runLater_bounds [OF n idle b0] by (simp add: runLater_function_def)
  from c [THEN conjunct2, THEN conjunct2, THEN conjunct2, THEN conjunct1, rule_format, OF this]
  have b2: "\<exists>calls s'.
      loop ?exec (\<lambda>i. at_time 9)
        (snd (snd (runLater_function idle (at_time 0) (Some 1) 0 False (projr (Actions_ctor 2)))))
        = Some ((), calls, s') \<and> bounds 2 s'" .
  from n p b0 b1 b2 show ?thesis by (intro conjI)
qed

section \<open>Scheduling from a callback\<close>

lemma call_function: "call exec (Callback_function (Some f)) s = exec (Function f) s"
  by (simp add: call_def Callback_function_def)

lemma call_method:
  "call exec (Callback_method (Some inst) (Some meth)) s = exec (Method inst meth) s"
  by (simp add: call_def Callback_method_def)

text \<open>
  Claim C9. Let entry \<open>k\<close> be the first due entry when \<^verbatim>\<open>loop\<close> runs on a well-formed
  scheduler, and let calling its callback, a function or a method of an instance, have the
  effect of a call of \<^verbatim>\<open>runLater\<close> with an action \<open>a\<close> on the same scheduler (both
  public overloads are such calls). Then that call finds a free slot (the one the
  dispatched action left) and returns true, \<^verbatim>\<open>loop\<close> returns the state the call
  produced with the new task last in the queue, and the log of this \<^verbatim>\<open>loop\<close> holds the
  dispatched callback only: the new task is not called by it. A later \<^verbatim>\<open>loop\<close> in which
  the older entries are not due and the new task is due calls the new task's callback.
\<close>

theorem C9_runLater_from_callback:
  assumes "wellformed s" and "k < length (pending s)"
    and "is_due (clk k) (pending s ! k)"
    and "\<forall>j<k. \<not> is_due (clk j) (pending s ! j)"
    and "call exec (callback (pending s ! k)) = (\<lambda>s0. snd (snd (runLater exec0 a s0)))"
  shows "\<exists>s1 s'.
           loop exec clk s = Some ((), [callback (pending s ! k)], s') \<and>
           pending s1 = drop (Suc k) (pending s) @ take k (pending s) \<and>
           runLater exec0 a s1 = (True, [], s') \<and>
           wellformed s' \<and>
           pending s' = pending s1 @ [a] \<and>
           (\<forall>clk'.
              (\<forall>j<length (pending s1). \<not> is_due (clk' j) (pending s1 ! j)) \<and>
              is_due (clk' (length (pending s1))) a
              \<longrightarrow> (\<exists>s2. loop exec clk' s' =
                          Some ((), [callback a], call exec (callback a) s2)))"
proof -
  let ?cb = "callback (pending s ! k)"
  from loop_dispatch [OF assms(1-4), of exec] obtain s1 where
    l: "loop exec clk s = Some ((), [?cb], call exec ?cb s1)"
       "wellformed s1" "pending s1 = drop (Suc k) (pending s) @ take k (pending s)"
       "queueSize s1 = queueSize s"
    by blast
  from assms(2) l(3) have "int (length (pending s1)) + 1 = int (length (pending s))"
    by simp
  with pending_bound [OF assms(1)] l(4) have "\<not> isFull s1"
    by (simp add: isFull_pending [OF l(2)])
  from runLater_stores [OF l(2) this, of exec0 a] obtain s' where
    r: "runLater exec0 a s1 = (True, [], s')" "wellformed s'"
       "pending s' = pending s1 @ [a]"
    by blast
  with assms(5) have "call exec ?cb s1 = s'"
    by simp
  with l(1) have lp: "loop exec clk s = Some ((), [?cb], s')"
    by simp
  have next_poll: "\<exists>s2. loop exec clk' s' =
                          Some ((), [callback a], call exec (callback a) s2)"
    if nd: "\<forall>j<length (pending s1). \<not> is_due (clk' j) (pending s1 ! j)"
      and due: "is_due (clk' (length (pending s1))) a" for clk'
  proof -
    let ?m = "length (pending s1)"
    have m: "?m < length (pending s')" and at_m: "pending s' ! ?m = a"
      by (simp_all add: r(3))
    have before: "\<forall>j<?m. \<not> is_due (clk' j) (pending s' ! j)"
      using nd by (simp add: r(3) nth_append)
    from due at_m have "is_due (clk' ?m) (pending s' ! ?m)" by simp
    from loop_dispatch [OF r(2) m this before, of exec] at_m show ?thesis
      by auto
  qed
  from lp l(3) r next_poll show ?thesis by blast
qed

theorem C9_runLater_from_callback_witness:
  "wellformed (snd (snd (runLater_function idle (at_time 0) (Some 1) 500 False
      (projr (Actions_ctor 1))))) \<and>
   isFull (snd (snd (runLater_function idle (at_time 0) (Some 1) 500 False
      (projr (Actions_ctor 1))))) \<and>
   (\<exists>s1 s'.
      loop reschedule (\<lambda>i. at_time 501)
        (snd (snd (runLater_function idle (at_time 0) (Some 1) 500 False (projr (Actions_ctor 1)))))
        = Some ((), [Callback_function (Some 1)], s') \<and>
      pending s1 = [] \<and>
      runLater_function idle (at_time 501) (Some 1) 500 False s1 = (True, [], s') \<and>
      pending s' = [Action_ctor (at_time 501) (Callback_function (Some 1)) 500 False] \<and>
      (\<exists>s2. loop reschedule (\<lambda>i. at_time 1002) s'
            = Some ((), [Callback_function (Some 1)],
                call reschedule (Callback_function (Some 1)) s2))) \<and>
   wellformed (snd (snd (runLater_method idle (at_time 0) (Some 4) (Some 5) 500 False
      (projr (Actions_ctor 1))))) \<and>
   (\<exists>s1 s'.
      loop reschedule (\<lambda>i. at_time 501)
        (snd (snd (runLater_method idle (at_time 0) (Some 4) (Some 5) 500 False
           (projr (Actions_ctor 1)))))
        = Some ((), [Callback_method (Some 4) (Some 5)], s') \<and>
      pending s1 = [] \<and>
      runLater_method idle (at_time 501) (Some 4) (Some 5) 500 False s1 = (True, [], s') \<and>
      pending s' = [Action_ctor (at_time 501) (Callback_method (Some 4) (Some 5)) 500 False])"
proof -
  let ?sf = "snd (snd (runLater_function idle (at_time 0) (Some 1) 500 False
               (projr (Actions_ctor 1))))"
  let ?sm = "snd (snd (runLater_method idle (at_time 0) (Some 4) (Some 5) 500 False
               (projr (Actions_ctor 1))))"
  let ?af = "Action_ctor (at_time 501) (Callback_function (Some 1)) 500 False"
  let ?am = "Action_ctor (at_time 501) (Callback_method (Some 4) (Some 5)) 500 False"
  have wf: "wellformed ?sf" by code_simp
  have full: "isFull ?sf" by code_simp
  have pf: "pending ?sf = [Action_ctor (at_time 0) (Callback_function (Some 1)) 500 False]"
    by code_simp
  have kf: "0 < length (pending ?sf)" unfolding pf by simp
  have duef: "is_due (at_time 501) (pending ?sf ! 0)"
    unfolding pf by (simp add: is_due_def at_time_def Action_ctor_def)
  have firstf: "\<forall>j<0. \<not> is_due (at_time 501) (pending ?sf ! j)" by simp
  have bodyf: "call reschedule (callback (pending ?sf ! 0)) =
      (\<lambda>s0. snd (snd (runLater idle ?af s0)))"
    unfolding pf
    by (rule ext) (simp add: Action_ctor_def call_function reschedule_def runLater_function_def)
  from C9_runLater_from_callback [of ?sf 0 "\<lambda>i. at_time 501" reschedule idle ?af,
      OF wf kf duef firstf bodyf]
  obtain s1 s' where
    r: "loop reschedule (\<lambda>i. at_time 501) ?sf = Some ((), [callback (pending ?sf ! 0)], s')"
       "pending s1 = drop (Suc 0) (pending ?sf) @ take 0 (pending ?sf)"
       "runLater idle ?af s1 = (True, [], s')"
       "pending s' = pending s1 @ [?af]"
       "\<forall>clk'. (\<forall>j<length (pending s1). \<not> is_due (clk' j) (pending s1 ! j)) \<and>
              is_due (clk' (length (pending s1))) ?af
              \<longrightarrow> (\<exists>s2. loop reschedule clk' s' =
                          Some ((), [callback ?af], call reschedule (callback ?af) s2))"
    by blast
  from r(1) have r1: "loop reschedule (\<lambda>i. at_time 501) ?sf =
      Some ((), [Callback_function (Some 1)], s')"
    unfolding pf by (simp add: Action_ctor_def)
  from r(2) have e: "pending s1 = []" unfolding pf by simp
  with r(4) have q: "pending s' = [?af]" by simp
  from r(3) have r3: "runLater_function idle (at_time 501) (Some 1) 500 False s1 = (True, [], s')"
    by (simp add: runLater_function_def)
  have "is_due (at_time 1002) ?af"
    by (simp add: is_due_def at_time_def Action_ctor_def)
  with r(5) [rule_format, of "\<lambda>i. at_time 1002"] e
  have n: "\<exists>s2. loop reschedule (\<lambda>i. at_time 1002) s' =
      Some ((), [Callback_function (Some 1)], call reschedule (Callback_function (Some 1)) s2)"
    by (simp add: Action_ctor_def)
  from r1 e r3 q n
  have "loop reschedule (\<lambda>i. at_time 501) ?sf = Some ((), [Callback_function (Some 1)], s') \<and>
      pending s1 = [] \<and>
      runLater_function idle (at_time 501) (Some 1) 500 False s1 = (True, [], s') \<and>
      pending s' = [?af] \<and>
      (\<exists>s2. loop reschedule (\<lambda>i. at_time 1002) s'
            = Some ((), [Callback_function (Some 1)],
                call reschedule (Callback_function (Some 1)) s2))"
    by (intro conjI)
  then have F: "\<exists>s1 s'.
      loop reschedule (\<lambda>i. at_time 501) ?sf = Some ((), [Callback_function (Some 1)], s') \<and>
      pending s1 = [] \<and>
      runLater_function idle (at_time 501) (Some 1) 500 False s1 = (True, [], s') \<and>
      pending s' = [?af] \<and>
      (\<exists>s2. loop reschedule (\<lambda>i. at_time 1002) s'
            = Some ((), [Callback_function (Some 1)],
                call reschedule (Callback_function (Some 1)) s2))"
    by (rule exI [of _ s', THEN exI [of _ s1]])
  have wm: "wellformed ?sm" by code_simp
  have pm: "pending ?sm = [Action_ctor (at_time 0) (Callback_method (Some 4) (Some 5)) 500 False]"
    by code_simp
  have km: "0 < length (pending ?sm)" unfolding pm by simp
  have duem: "is_due (at_time 501) (pending ?sm ! 0)"
    unfolding pm by (simp add: is_due_def at_time_def Action_ctor_def)
  have firstm: "\<forall>j<0. \<not> is_due (at_time 501) (pending ?sm ! j)" by simp
  have bodym: "call reschedule (callback (pending ?sm ! 0)) =
      (\<lambda>s0. snd (snd (runLater idle ?am s0)))"
    unfolding pm
    by (rule ext) (simp add: Action_ctor_def call_method reschedule_def runLater_method_def)
  from C9_runLater_from_callback [of ?sm 0 "\<lambda>i. at_time 501" reschedule idle ?am,
      OF wm km duem firstm bodym]
  obtain t1 t' where
    m: "loop reschedule (\<lambda>i. at_time 501) ?sm = Some ((), [callback (pending ?sm ! 0)], t')"
       "pending t1 = drop (Suc 0) (pending ?sm) @ take 0 (pending ?sm)"
       "runLater idle ?am t1 = (True, [], t')"
       "pending t' = pending t1 @ [?am]"
    by blast
  from m(1) have m1: "loop reschedule (\<lambda>i. at_time 501) ?sm =
      Some ((), [Callback_method (Some 4) (Some 5)], t')"
    unfolding pm by (simp add: Action_ctor_def)
  from m(2) have em: "pending t1 = []" unfolding pm by simp
  with m(4) have qm: "pending t' = [?am]" by simp
  from m(3) have m3: "runLater_method idle (at_time 501) (Some 4) (Some 5) 500 False t1 =
      (True, [], t')"
    by (simp add: runLater_method_def)
  from m1 em m3 qm
  have "loop reschedule (\<lambda>i. at_time 501) ?sm =
        Some ((), [Callback_method (Some 4) (Some 5)], t') \<and>
      pending t1 = [] \<and>
      runLater_method idle (at_time 501) (Some 4) (Some 5) 500 False t1 = (True, [], t') \<and>
      pending t' = [?am]"
    by (intro conjI)
  then have M: "\<exists>s1 s'.
      loop reschedule (\<lambda>i. at_time 501) ?sm =
        Some ((), [Callback_method (Some 4) (Some 5)], s') \<and>
      pending s1 = [] \<and>
      runLater_method idle (at_time 501) (Some 4) (Some 5) 500 False s1 = (True, [], s') \<and>
      pending s' = [?am]"
    by (rule exI [of _ t', THEN exI [of _ t1]])
  from wf full F wm M show ?thesis by (intro conjI)
qed

section \<open>Where the source departs from its documentation\<close>

text \<open>
  Claim C2 says that \<^verbatim>\<open>loop\<close> returns true when a callback was called and false when none
  was due, as the README does. The source declares \<^verbatim>\<open>void loop()\<close>. On a scheduler
  holding one task with delay 0 registered at time 0, \<^verbatim>\<open>loop\<close> at time 1 calls the
  callback and \<^verbatim>\<open>loop\<close> at time 0 calls nothing, and what the two calls return is the
  same: nothing.
\<close>

theorem C2_loop_returns_no_value:
  "map_option (\<lambda>(u, calls, s'). (u, calls, pending s'))
     (loop idle (\<lambda>i. at_time 1)
        (snd (snd (runLater_function idle (at_time 0) (Some 1) 0 False (projr (Actions_ctor 1))))))
     = Some ((), [Callback_function (Some 1)], []) \<and>
   map_option (\<lambda>(u, calls, s'). (u, calls, pending s'))
     (loop idle (\<lambda>i. at_time 0)
        (snd (snd (runLater_function idle (at_time 0) (Some 1) 0 False (projr (Actions_ctor 1))))))
     = Some ((), [], [Action_ctor (at_time 0) (Callback_function (Some 1)) 0 False]) \<and>
   map_option fst
     (loop idle (\<lambda>i. at_time 1)
        (snd (snd (runLater_function idle (at_time 0) (Some 1) 0 False (projr (Actions_ctor 1))))))
     = map_option fst
     (loop idle (\<lambda>i. at_time 0)
        (snd (snd (runLater_function idle (at_time 0) (Some 1) 0 False (projr (Actions_ctor 1))))))"
  by code_simp

text \<open>
  Claim C3 says that among due tasks the one registered first is called first, in every
  queue state. On \<open>three_tasks\<close>, \<^verbatim>\<open>loop\<close> at time 3 puts task 1 (not due) behind
  task 3 and calls task 2, leaving the queue in the order 3, 1. At time 5000 both are due,
  and the next \<^verbatim>\<open>loop\<close> calls task 3, registered at time 2, while task 1, registered
  at time 0, stays pending.
\<close>

theorem C3_younger_task_called_before_older:
  "pending three_tasks =
     [Action_ctor (at_time 0) (Callback_function (Some 1)) 1000 False,
      Action_ctor (at_time 1) (Callback_function (Some 2)) 0 False,
      Action_ctor (at_time 2) (Callback_function (Some 3)) 500 False] \<and>
   map_option (\<lambda>(u, calls, s'). (calls, pending s')) (loop idle (\<lambda>i. at_time 3) three_tasks)
     = Some ([Callback_function (Some 2)],
             [Action_ctor (at_time 2) (Callback_function (Some 3)) 500 False,
              Action_ctor (at_time 0) (Callback_function (Some 1)) 1000 False]) \<and>
   map_option (\<lambda>(calls, s'). (calls, pending s'))
     (polls idle [\<lambda>i. at_time 3, \<lambda>i. at_time 5000] three_tasks)
     = Some ([Callback_function (Some 2), Callback_function (Some 3)],
             [Action_ctor (at_time 0) (Callback_function (Some 1)) 1000 False]) \<and>
   is_due (at_time 5000) (Action_ctor (at_time 0) (Callback_function (Some 1)) 1000 False) \<and>
   is_due (at_time 5000) (Action_ctor (at_time 2) (Callback_function (Some 3)) 500 False)"
  by code_simp

text \<open>What \<^verbatim>\<open>runLater\<close> does on a full queue, by the value of the pointer.\<close>

lemma runLater_overflow_calls:
  "isFull s \<Longrightarrow> overflowCallback s = Some h \<Longrightarrow> runLater exec a s = (False, [h], call exec h s)"
  by (simp add: runLater_def)

lemma runLater_overflow_null:
  "isFull s \<Longrightarrow> overflowCallback s = None \<Longrightarrow> runLater exec a s = (False, [], s)"
  by (simp add: runLater_def)

text \<open>
  Claim C5 is about a scheduler on which an overflow handler has been installed. The
  constructor sets the pointer \<^verbatim>\<open>overflowCallback\<close> to \<^verbatim>\<open>NULL\<close>, and both overloads of
  \<^verbatim>\<open>setOverflowCallback\<close> assign through it: on every constructed scheduler the call is
  a write through \<^verbatim>\<open>NULL\<close> and installs nothing. With the pointer still \<^verbatim>\<open>NULL\<close>, a
  \<^verbatim>\<open>runLater\<close> rejected by a full queue (here of capacity 1) returns false and calls
  no handler.
\<close>

theorem C5_overflow_handler_never_installed:
  assumes "Actions_ctor n = Inr s0"
  shows "setOverflowCallback_function f s0 = Inl NullPointerWrite \<and>
         setOverflowCallback_method inst meth s0 = Inl NullPointerWrite \<and>
         overflowCallback s0 = None \<and>
         (n = 1 \<longrightarrow>
            runLater exec a s0 = (True, [], s0\<lparr>queue := [a, Action_empty], head := 1\<rparr>) \<and>
            runLater exec b (s0\<lparr>queue := [a, Action_empty], head := 1\<rparr>) =
              (False, [], s0\<lparr>queue := [a, Action_empty], head := 1\<rparr>))"
  using Actions_ctor_fields [OF assms]
  by (simp add: setOverflowCallback_function_def setOverflowCallback_method_def
      runLater_def isFull_def nextSlot_def numeral_2_eq_2)

theorem C5_overflow_handler_never_installed_witness:
  "Actions_ctor 1 = Inr (projr (Actions_ctor 1)) \<and>
   setOverflowCallback_function (Some 9) (projr (Actions_ctor 1)) = Inl NullPointerWrite \<and>
   setOverflowCallback_method (Some 8) (Some 9) (projr (Actions_ctor 1)) = Inl NullPointerWrite \<and>
   runLater idle (Action_ctor (at_time 0) (Callback_function (Some 1)) 0 False)
       (projr (Actions_ctor 1)) =
     (True, [],
      (projr (Actions_ctor 1))
        \<lparr>queue := [Action_ctor (at_time 0) (Callback_function (Some 1)) 0 False, Action_empty],
         head := 1\<rparr>) \<and>
   runLater idle (Action_ctor (at_time 0) (Callback_function (Some 2)) 0 False)
       ((projr (Actions_ctor 1))
          \<lparr>queue := [Action_ctor (at_time 0) (Callback_function (Some 1)) 0 False, Action_empty],
           head := 1\<rparr>) =
     (False, [],
      (projr (Actions_ctor 1))
        \<lparr>queue := [Action_ctor (at_time 0) (Callback_function (Some 1)) 0 False, Action_empty],
         head := 1\<rparr>)"
proof -
  have p: "Actions_ctor 1 = Inr (projr (Actions_ctor 1))"
    by (rule Actions_ctor_projr) simp
  note c = C5_overflow_handler_never_installed [OF p,
      of "Some 9" "Some 8" "Some 9" idle
         "Action_ctor (at_time 0) (Callback_function (Some 1)) 0 False"
         "Action_ctor (at_time 0) (Callback_function (Some 2)) 0 False"]
  note c1 = c [THEN conjunct1]
  note c2 = c [THEN conjunct2, THEN conjunct1]
  note c4 = c [THEN conjunct2, THEN conjunct2, THEN conjunct2, THEN mp, OF refl]
  from p c1 c2 c4 [THEN conjunct1] c4 [THEN conjunct2] show ?thesis by (intro conjI)
qed

end
